theory Spec2Isabelle
  imports Complex_Main "HOL-Library.Sublist"
begin

section \<open>Python strings\<close>

text \<open>
  A Python \<open>str\<close> is modelled as a \<open>string\<close>, one \<open>char\<close> per code point, which covers
  the code points below 256. The character tables below are those of Python 3 on that
  range: \<open>str.isspace\<close>, \<open>str.lower\<close>, and the classes \<open>\d\<close>, \<open>\s\<close>, \<open>\w\<close> of the
  \<open>re\<close> module on \<open>str\<close> patterns.
\<close>

definition code :: "char \<Rightarrow> nat" where
  "code c = of_char c"

definition in_range :: "nat \<Rightarrow> nat \<Rightarrow> char \<Rightarrow> bool" where
  "in_range lo hi c = (lo \<le> code c \<and> code c \<le> hi)"

definition is_space :: "char \<Rightarrow> bool" where
  \<comment> \<open>\<open>str.isspace\<close> and \<open>\s\<close>: TAB, LF, VT, FF, CR, FS..US, SPACE, NEL, NBSP.\<close>
  "is_space c = (in_range 9 13 c \<or> in_range 28 32 c \<or> code c = 133 \<or> code c = 160)"

definition is_digit :: "char \<Rightarrow> bool" where
  \<comment> \<open>\<open>\d\<close>: the decimal digits.\<close>
  "is_digit c = in_range 48 57 c"

definition is_upper_az :: "char \<Rightarrow> bool" where
  "is_upper_az c = in_range 65 90 c"

definition is_lower_az :: "char \<Rightarrow> bool" where
  "is_lower_az c = in_range 97 122 c"

definition is_word :: "char \<Rightarrow> bool" where
  \<comment> \<open>\<open>\w\<close>: \<open>str.isalnum\<close> or the underscore.\<close>
  "is_word c = (is_digit c \<or> is_upper_az c \<or> is_lower_az c \<or> code c = 95
      \<or> code c = 170 \<or> code c = 178 \<or> code c = 179 \<or> code c = 181
      \<or> code c = 185 \<or> code c = 186 \<or> in_range 188 190 c
      \<or> in_range 192 214 c \<or> in_range 216 246 c \<or> in_range 248 255 c)"

definition is_lower :: "char \<Rightarrow> bool" where
  \<comment> \<open>A lowercase letter (general category Ll): a-z, the micro sign, and 0xDF..0xFF
      without the division sign.\<close>
  "is_lower c = (is_lower_az c \<or> code c = 181
      \<or> in_range 223 246 c \<or> in_range 248 255 c)"

definition lower_char :: "char \<Rightarrow> char" where
  \<comment> \<open>\<open>str.lower\<close> on one character: A-Z and 0xC0..0xDE (without the multiplication
      sign) move up by 32.\<close>
  "lower_char c =
     (if is_upper_az c \<or> in_range 192 214 c \<or> in_range 216 222 c
      then char_of (code c + 32) else c)"

definition upper_char :: "char \<Rightarrow> char" where
  \<comment> \<open>The uppercase partner of a character when it has one below 256.\<close>
  "upper_char c =
     (if is_lower_az c \<or> in_range 224 246 c \<or> in_range 248 254 c
      then char_of (code c - 32) else c)"

definition lower :: "string \<Rightarrow> string" where
  "lower s = map lower_char s"

definition strip :: "string \<Rightarrow> string" where
  \<comment> \<open>\<open>str.strip()\<close>: whitespace removed at both ends.\<close>
  "strip s = rev (dropWhile is_space (rev (dropWhile is_space s)))"

definition replace_char :: "char \<Rightarrow> string \<Rightarrow> string" where
  \<comment> \<open>\<open>s.replace(c, '')\<close> for a one-character \<open>c\<close>.\<close>
  "replace_char c s = filter (\<lambda>x. x \<noteq> c) s"

datatype error = IndexError | KeyError | ValueError | BackendError

definition py_index :: "string \<Rightarrow> int \<Rightarrow> error + char" where
  \<comment> \<open>\<open>s[i]\<close>: a negative index counts from the end, out of range raises.\<close>
  "py_index s i =
     (let n = int (length s); j = (if i < 0 then i + n else i)
      in if 0 \<le> j \<and> j < n then Inr (s ! nat j) else Inl IndexError)"

definition clip :: "nat \<Rightarrow> int \<Rightarrow> nat" where
  \<comment> \<open>A slice bound: a negative bound counts from the end, then it is clamped.\<close>
  "clip n i = (let j = (if i < 0 then i + int n else i)
               in if j < 0 then 0 else if int n < j then n else nat j)"

definition py_slice :: "string \<Rightarrow> int \<Rightarrow> int \<Rightarrow> string" where
  \<comment> \<open>\<open>s[a:b]\<close>.\<close>
  "py_slice s a b = (let lo = clip (length s) a; hi = clip (length s) b
                     in take (hi - lo) (drop lo s))"

section \<open>Regular expressions\<close>

text \<open>
  The patterns of the program, as syntax trees, and the backtracking matcher of
  Python's \<open>re\<close>: alternatives and optional parts are tried in order, a repetition is
  greedy, the first full match wins. A repetition is over a character class, which is
  all the patterns of this program need.
\<close>

datatype citem =
    CChar char            \<comment> \<open>a literal character\<close>
  | CRange char char      \<comment> \<open>\<open>a-z\<close>\<close>
  | CDigit                \<comment> \<open>\<open>\d\<close>\<close>
  | CSpace                \<comment> \<open>\<open>\s\<close>\<close>

datatype regex =
    Cls "citem list"                    \<comment> \<open>\<open>[...]\<close>, or one literal or one escape\<close>
  | Rep "citem list" nat "nat option"   \<comment> \<open>\<open>[...]{m,n}\<close>; no upper bound for \<open>+\<close> and \<open>{m,}\<close>\<close>
  | Cat regex regex
  | Alt regex regex                     \<comment> \<open>\<open>a|b\<close>\<close>
  | Opt regex                           \<comment> \<open>\<open>(?:a)?\<close>\<close>
  | WordB                               \<comment> \<open>\<open>\b\<close>\<close>
  | Bol                                 \<comment> \<open>\<open>^\<close>\<close>
  | Eol                                 \<comment> \<open>\<open>$\<close>\<close>

fun in_item :: "citem \<Rightarrow> char \<Rightarrow> bool" where
  "in_item (CChar a) c = (c = a)"
| "in_item (CRange a b) c = (code a \<le> code c \<and> code c \<le> code b)"
| "in_item CDigit c = is_digit c"
| "in_item CSpace c = is_space c"

definition in_cls :: "bool \<Rightarrow> citem list \<Rightarrow> char \<Rightarrow> bool" where
  \<comment> \<open>With \<open>re.IGNORECASE\<close> a character matches when one of its case variants does.\<close>
  "in_cls ic cs c =
     (if ic then list_ex (\<lambda>it. in_item it c \<or> in_item it (lower_char c) \<or> in_item it (upper_char c)) cs
      else list_ex (\<lambda>it. in_item it c) cs)"

definition at_boundary :: "string \<Rightarrow> nat \<Rightarrow> bool" where
  \<comment> \<open>\<open>\b\<close>: exactly one of the two neighbours is a word character.\<close>
  "at_boundary s i =
     ((0 < i \<and> i \<le> length s \<and> is_word (s ! (i - 1))) \<noteq> (i < length s \<and> is_word (s ! i)))"

definition at_end :: "string \<Rightarrow> nat \<Rightarrow> bool" where
  \<comment> \<open>\<open>$\<close> without \<open>re.MULTILINE\<close>: at the end of the string, or just before a newline
      that is its last character.\<close>
  "at_end s i = (i = length s \<or> (Suc i = length s \<and> s ! i = CHR 0x0A))"

definition run_length :: "bool \<Rightarrow> string \<Rightarrow> citem list \<Rightarrow> nat \<Rightarrow> nat" where
  "run_length ic s cs i = length (takeWhile (in_cls ic cs) (drop i s))"

definition rep_ends :: "bool \<Rightarrow> string \<Rightarrow> citem list \<Rightarrow> nat \<Rightarrow> nat option \<Rightarrow> nat \<Rightarrow> nat list" where
  \<comment> \<open>The positions where a greedy repetition starting at \<open>i\<close> may end, longest first.\<close>
  "rep_ends ic s cs lo hi i =
     (let r = run_length ic s cs i;
          n = (case hi of None \<Rightarrow> r | Some h \<Rightarrow> min h r)
      in map (\<lambda>c. i + c) (rev [lo ..< Suc n]))"

fun first_some :: "('a \<Rightarrow> 'b option) \<Rightarrow> 'a list \<Rightarrow> 'b option" where
  "first_some k [] = None"
| "first_some k (x # xs) = (case k x of Some r \<Rightarrow> Some r | None \<Rightarrow> first_some k xs)"

primrec rx :: "bool \<Rightarrow> string \<Rightarrow> regex \<Rightarrow> nat \<Rightarrow> (nat \<Rightarrow> nat option) \<Rightarrow> nat option" where
  \<comment> \<open>\<open>rx ic s r i k\<close>: match \<open>r\<close> at position \<open>i\<close> of \<open>s\<close>, then the rest \<open>k\<close>; the result
      is the end of the first match found.\<close>
  "rx ic s (Cls cs) = (\<lambda>i k. if i < length s \<and> in_cls ic cs (s ! i) then k (Suc i) else None)"
| "rx ic s (Rep cs lo hi) = (\<lambda>i k. first_some k (rep_ends ic s cs lo hi i))"
| "rx ic s (Cat a b) = (\<lambda>i k. rx ic s a i (\<lambda>j. rx ic s b j k))"
| "rx ic s (Alt a b) = (\<lambda>i k. case rx ic s a i k of Some e \<Rightarrow> Some e | None \<Rightarrow> rx ic s b i k)"
| "rx ic s (Opt a) = (\<lambda>i k. case rx ic s a i k of Some e \<Rightarrow> Some e | None \<Rightarrow> k i)"
| "rx ic s WordB = (\<lambda>i k. if at_boundary s i then k i else None)"
| "rx ic s Bol = (\<lambda>i k. if i = 0 then k i else None)"
| "rx ic s Eol = (\<lambda>i k. if at_end s i then k i else None)"

definition match_at :: "bool \<Rightarrow> regex \<Rightarrow> string \<Rightarrow> nat \<Rightarrow> nat option" where
  "match_at ic r s i = rx ic s r i Some"

definition re_match :: "regex \<Rightarrow> string \<Rightarrow> bool" where
  \<comment> \<open>\<open>bool(re.match(r, s))\<close>: a match starting at position 0, no flags.\<close>
  "re_match r s = (match_at False r s 0 \<noteq> None)"

function scan :: "bool \<Rightarrow> regex \<Rightarrow> string \<Rightarrow> nat \<Rightarrow> (nat \<times> nat) list" where
  \<comment> \<open>The non-overlapping matches from position \<open>i\<close> on, left to right, as (start, end).
      A match that consumes nothing moves the scan on by one character.\<close>
  "scan ic r s i =
     (if length s < i then []
      else case match_at ic r s i of
             None \<Rightarrow> scan ic r s (Suc i)
           | Some e \<Rightarrow> (i, e) # scan ic r s (if i < e then e else Suc i))"
  by pat_completeness auto
termination
  by (relation "measure (\<lambda>(ic, r, s, i). Suc (length s) - i)") auto

definition findall :: "regex \<Rightarrow> string \<Rightarrow> string list" where
  \<comment> \<open>\<open>re.findall(r, s, re.IGNORECASE)\<close> for a pattern without capturing groups.\<close>
  "findall r s = map (\<lambda>(a, b). take (b - a) (drop a s)) (scan True r s 0)"

function sub_from :: "regex \<Rightarrow> string \<Rightarrow> string \<Rightarrow> nat \<Rightarrow> string" where
  "sub_from r repl s i =
     (if length s \<le> i then []
      else case match_at False r s i of
             None \<Rightarrow> s ! i # sub_from r repl s (Suc i)
           | Some e \<Rightarrow> if i < e then repl @ sub_from r repl s e
                       else s ! i # sub_from r repl s (Suc i))"
  by pat_completeness auto
termination
  by (relation "measure (\<lambda>(r, repl, s, i). length s - i)") auto

definition re_sub :: "regex \<Rightarrow> string \<Rightarrow> string \<Rightarrow> string" where
  \<comment> \<open>\<open>re.sub(r, repl, s)\<close> for a pattern that matches no empty string.\<close>
  "re_sub r repl s = sub_from r repl s 0"

definition times :: "nat \<Rightarrow> citem list \<Rightarrow> regex" where
  \<comment> \<open>\<open>[...]{n}\<close>\<close>
  "times n cs = Rep cs n (Some n)"

definition plus :: "citem list \<Rightarrow> regex" where
  \<comment> \<open>\<open>[...]+\<close>\<close>
  "plus cs = Rep cs 1 None"

fun seq :: "regex list \<Rightarrow> regex" where
  "seq [] = Rep [] 0 (Some 0)"
| "seq [r] = r"
| "seq (r # rs) = Cat r (seq rs)"

definition AZ :: "citem list" where "AZ = [CRange CHR ''A'' CHR ''Z'']"
definition D09 :: "citem list" where "D09 = [CRange CHR ''0'' CHR ''9'']"
definition lit :: "char \<Rightarrow> regex" where "lit c = Cls [CChar c]"

section \<open>document\_processor.py\<close>

definition classifications :: "(string \<times> string list) list" where
  "classifications =
     [(''loan_application'',
        [''loan application'', ''loan amount'', ''emi'', ''interest rate'',
         ''home loan'', ''personal loan'', ''business loan'', ''loan tenure'',
         ''principal amount'', ''loan purpose'', ''collateral'']),
      (''kyc_document'',
        [''aadhaar'', ''aadhar'', ''pan card'', ''kyc'', ''know your customer'',
         ''identity proof'', ''address proof'', ''passport'', ''voter id'',
         ''driving license'', ''verification'', ''identity document'']),
      (''bank_statement'',
        [''account statement'', ''transaction history'', ''opening balance'',
         ''closing balance'', ''credit'', ''debit'', ''statement period'',
         ''account number'', ''transaction date'', ''bank statement'']),
      (''salary_slip'',
        [''salary slip'', ''pay slip'', ''gross salary'', ''net salary'',
         ''basic pay'', ''allowances'', ''deductions'', ''pf contribution'',
         ''income tax'', ''take home'', ''earnings''])]"

definition keyword_score :: "string \<Rightarrow> string list \<Rightarrow> nat" where
  \<comment> \<open>\<open>sum(1 for kw in keywords if kw in text_lower)\<close>\<close>
  "keyword_score text_lower keywords = length (filter (\<lambda>kw. sublist kw text_lower) keywords)"

fun py_max :: "('a \<Rightarrow> nat) \<Rightarrow> 'a list \<Rightarrow> error + 'a" where
  \<comment> \<open>\<open>max(xs, key=f)\<close>: the first element is kept until a strictly larger one comes;
      an empty argument raises.\<close>
  "py_max f [] = Inl ValueError"
| "py_max f (x # xs) = Inr (fold (\<lambda>y best. if f best < f y then y else best) xs x)"

definition classify_document :: "string \<Rightarrow> error + string" where
  \<comment> \<open>\<open>scores\<close> is the dictionary as its items, in insertion order; \<open>max\<close> runs over
      its keys and compares their scores.\<close>
  "classify_document text =
     (let text_lower = lower text;
          scores = map (\<lambda>(doc_type, keywords). (doc_type, keyword_score text_lower keywords))
                       classifications
      in case py_max snd scores of
           Inl e \<Rightarrow> Inl e
         | Inr (best_type, best_score) \<Rightarrow>
             if best_score = 0 then Inr ''other'' else Inr best_type)"

definition normalize :: "string \<Rightarrow> string" where
  \<comment> \<open>\<open>re.sub(r'\s+', ' ', text).strip()\<close>\<close>
  "normalize text = strip (re_sub (plus [CSpace]) '' '' text)"

definition sentence_end :: "char \<Rightarrow> bool" where
  \<comment> \<open>\<open>text[i] in '.!?\n'\<close>\<close>
  "sentence_end c = (c \<in> set (''.!?'' @ [CHR 0x0A]))"

function find_break :: "string \<Rightarrow> int \<Rightarrow> int \<Rightarrow> error + int option" where
  \<comment> \<open>\<open>for i in range(i, stop, -1)\<close>: the new \<open>end\<close> at the first sentence end found.\<close>
  "find_break text i stop =
     (if i \<le> stop then Inr None
      else case py_index text i of
             Inl e \<Rightarrow> Inl e
           | Inr c \<Rightarrow> if sentence_end c then Inr (Some (i + 1))
                      else find_break text (i - 1) stop)"
  by pat_completeness auto
termination
  by (relation "measure (\<lambda>(text, i, stop). nat (i - stop))") auto

record loop_state =
  start :: int
  chunks :: "(string \<times> int) list"
  chunk_index :: int

definition chunk_step :: "string \<Rightarrow> int \<Rightarrow> int \<Rightarrow> loop_state \<Rightarrow> error + loop_state" where
  \<comment> \<open>One run of the body of the \<open>while\<close> loop.\<close>
  "chunk_step text chunk_size overlap st =
     (let end0 = start st + chunk_size in
      case (if end0 < int (length text)
            then find_break text end0 (max (start st + chunk_size div 2) (start st))
            else Inr None) of
        Inl e \<Rightarrow> Inl e
      | Inr b \<Rightarrow>
          let end1 = (case b of Some e \<Rightarrow> e | None \<Rightarrow> end0);
              chunk = strip (py_slice text (start st) end1)
          in if chunk \<noteq> []
             then Inr \<lparr>start = end1 - overlap,
                       chunks = chunks st @ [(chunk, chunk_index st)],
                       chunk_index = chunk_index st + 1\<rparr>
             else Inr (st\<lparr>start := end1 - overlap\<rparr>))"

fun chunk_loop :: "nat \<Rightarrow> string \<Rightarrow> int \<Rightarrow> int \<Rightarrow> loop_state \<Rightarrow> (error + (string \<times> int) list) option" where
  \<comment> \<open>The \<open>while\<close> loop, with a bound on the number of runs of its body: \<open>None\<close> when
      the bound is reached before the loop ends.\<close>
  "chunk_loop fuel text chunk_size overlap st =
     (if \<not> start st < int (length text) then Some (Inr (chunks st))
      else case fuel of
             0 \<Rightarrow> None
           | Suc n \<Rightarrow> (case chunk_step text chunk_size overlap st of
                         Inl e \<Rightarrow> Some (Inl e)
                       | Inr st' \<Rightarrow> chunk_loop n text chunk_size overlap st'))"

definition chunk_text :: "nat \<Rightarrow> string \<Rightarrow> int \<Rightarrow> int \<Rightarrow> (error + (string \<times> int) list) option" where
  "chunk_text fuel text0 chunk_size overlap =
     (let text = normalize text0
      in if int (length text) \<le> chunk_size then Some (Inr [(text, 0)])
         else chunk_loop fuel text chunk_size overlap
                \<lparr>start = 0, chunks = [], chunk_index = 0\<rparr>)"

definition CHUNK_SIZE :: int where "CHUNK_SIZE = 500"
definition CHUNK_OVERLAP :: int where "CHUNK_OVERLAP = 50"

section \<open>entity\_extractor.py\<close>

definition digit :: "citem list" where "digit = [CDigit]"
definition space :: "citem list" where "space = [CSpace]"

definition PATTERNS :: "(string \<times> regex) list" where
  \<comment> \<open>The rupee sign of the \<open>amount\<close> pattern is U+20B9, which is no character of a
      \<open>string\<close>: that alternative is the empty class, which matches nothing.\<close>
  "PATTERNS =
     [(''pan_number'', seq [WordB, times 5 AZ, times 4 D09, Cls AZ, WordB]),
      (''aadhaar_number'',
         seq [WordB, times 4 digit, Opt (Cls space), times 4 digit, Opt (Cls space),
              times 4 digit, WordB]),
      (''phone_number'', seq [WordB, Cls [CRange CHR ''6'' CHR ''9''], times 9 digit, WordB]),
      (''email'',
         seq [WordB,
              plus [CRange CHR ''A'' CHR ''Z'', CRange CHR ''a'' CHR ''z'', CRange CHR ''0'' CHR ''9'',
                    CChar CHR ''.'', CChar CHR ''_'', CChar CHR ''%'', CChar CHR ''+'', CChar CHR ''-''],
              lit CHR ''@'',
              plus [CRange CHR ''A'' CHR ''Z'', CRange CHR ''a'' CHR ''z'', CRange CHR ''0'' CHR ''9'',
                    CChar CHR ''.'', CChar CHR ''-''],
              lit CHR ''.'',
              Rep [CRange CHR ''A'' CHR ''Z'', CChar CHR ''|'', CRange CHR ''a'' CHR ''z''] 2 None,
              WordB]),
      (''amount'',
         seq [Alt (Cls [])
                (Alt (seq [lit CHR ''R'', lit CHR ''s'', Opt (lit CHR ''.'')])
                     (seq [lit CHR ''I'', lit CHR ''N'', lit CHR ''R''])),
              Opt (Cls space),
              plus [CDigit, CChar CHR '',''],
              Opt (seq [lit CHR ''.'', times 2 digit])]),
      (''date'',
         seq [WordB, times 2 digit, Cls [CChar CHR ''/'', CChar CHR ''-''], times 2 digit,
              Cls [CChar CHR ''/'', CChar CHR ''-''], times 4 digit, WordB]),
      (''account_number'', seq [WordB, Rep digit 9 (Some 18), WordB]),
      (''ifsc_code'',
         seq [WordB, times 4 AZ, lit CHR ''0'',
              times 6 [CRange CHR ''A'' CHR ''Z'', CRange CHR ''0'' CHR ''9''], WordB]),
      (''pin_code'', seq [WordB, Cls [CRange CHR ''1'' CHR ''9''], times 5 digit, WordB]),
      (''percentage'',
         seq [WordB, plus digit, Opt (seq [lit CHR ''.'', plus digit]), lit CHR ''%''])]"

definition dict_fromkeys :: "'a list \<Rightarrow> 'a list" where
  \<comment> \<open>\<open>list(dict.fromkeys(xs))\<close>: the first occurrence of each element, in order.\<close>
  "dict_fromkeys xs = fold (\<lambda>x acc. if x \<in> set acc then acc else acc @ [x]) xs []"

definition extract_entities :: "string \<Rightarrow> (string \<times> string list) list" where
  \<comment> \<open>The dictionary \<open>entities\<close> as its items, in insertion order.\<close>
  "extract_entities text =
     fold (\<lambda>(entity_type, pattern) entities.
             let matches = findall pattern text;
                 unique_matches = dict_fromkeys matches
             in if unique_matches \<noteq> [] then entities @ [(entity_type, unique_matches)]
                else entities)
          PATTERNS []"

definition validate_pan :: "string \<Rightarrow> bool" where
  "validate_pan pan =
     (if \<not> re_match (seq [Bol, times 5 AZ, times 4 D09, Cls AZ, Eol]) pan then False
      else if pan ! 3 \<notin> set ''PCHFATBLJG'' then False
      else True)"

definition validate_aadhaar :: "string \<Rightarrow> bool" where
  "validate_aadhaar aadhaar =
     (let aadhaar_clean = replace_char CHR '' '' aadhaar
      in if \<not> re_match (seq [Bol, times 12 digit, Eol]) aadhaar_clean then False
         else if aadhaar_clean ! 0 \<in> set ''01'' then False
         else True)"

definition validate_ifsc :: "string \<Rightarrow> bool" where
  "validate_ifsc ifsc =
     re_match (seq [Bol, times 4 AZ, lit CHR ''0'',
                    times 6 [CRange CHR ''A'' CHR ''Z'', CRange CHR ''0'' CHR ''9''], Eol]) ifsc"

record entity_summary =
  total_entities :: nat
  entity_counts :: "(string \<times> nat) list"
  validated :: "(string \<times> (string \<times> bool) list) list"

definition validated_entry ::
  "(string \<times> string list) list \<Rightarrow> string \<Rightarrow> string \<Rightarrow> (string \<Rightarrow> bool) \<Rightarrow>
   (string \<times> (string \<times> bool) list) list" where
  \<comment> \<open>\<open>if key in entities: summary['validated'][name] = [{'value': v, 'valid': check(v)} ...]\<close>\<close>
  "validated_entry entities key name check =
     (case map_of entities key of
        None \<Rightarrow> []
      | Some vs \<Rightarrow> [(name, map (\<lambda>v. (v, check v)) vs)])"

definition get_entity_summary :: "(string \<times> string list) list \<Rightarrow> entity_summary" where
  "get_entity_summary entities =
     \<lparr>total_entities = sum_list (map (\<lambda>(k, v). length v) entities),
      entity_counts = map (\<lambda>(k, v). (k, length v)) entities,
      validated = validated_entry entities ''pan_number'' ''pan_numbers'' validate_pan
                @ validated_entry entities ''aadhaar_number'' ''aadhaar_numbers'' validate_aadhaar
                @ validated_entry entities ''ifsc_code'' ''ifsc_codes'' validate_ifsc\<rparr>"


definition bonus_for :: "(string \<times> string list) list \<Rightarrow> string \<Rightarrow> (string \<Rightarrow> bool) \<Rightarrow> rat" where
  \<comment> \<open>\<open>if key in entities: n = sum(1 for v in entities[key] if check(v)); if n > 0: bonus += 5\<close>\<close>
  "bonus_for entities key check =
     (case map_of entities key of
        None \<Rightarrow> 0
      | Some vs \<Rightarrow> if 0 < length (filter check vs) then 5 else 0)"





section \<open>rag\_engine.py\<close>

text \<open>
  The language model (\<open>ollama\<close>) and the vector store (\<open>chromadb\<close>) are libraries
  outside the program. The model of the first is a record of what its calls give back,
  an error when they raise. The model of the second is the list of its records;
  a store that cannot be reached raises on every call.
\<close>

definition NL :: string where "NL = [CHR 0x0A]"

definition OLLAMA_MODEL :: string where "OLLAMA_MODEL = ''llama3:8b''"

fun str_nat :: "nat \<Rightarrow> string" where
  \<comment> \<open>\<open>str(n)\<close>\<close>
  "str_nat n = (if n < 10 then [char_of (48 + n)]
                else str_nat (n div 10) @ [char_of (48 + n mod 10)])"

fun join :: "string \<Rightarrow> string list \<Rightarrow> string" where
  \<comment> \<open>\<open>sep.join(xs)\<close>\<close>
  "join sep [] = []"
| "join sep [x] = x"
| "join sep (x # xs) = x @ sep @ join sep xs"

record context_chunk =
  ctext :: string                         \<comment> \<open>\<open>chunk['text']\<close>\<close>
  metadata :: "(string \<times> string) list"
  distance :: rat
  rid :: string

record ollama =
  list_models :: "error + string list"          \<comment> \<open>the names in \<open>ollama.list()\<close>\<close>
  chat :: "string \<Rightarrow> int \<Rightarrow> error + string"     \<comment> \<open>\<open>ollama.chat(...)['message']['content']\<close>\<close>

record vector_record =
  vid :: string
  document :: string
  vmeta :: "(string \<times> string) list"

record collection =
  reachable :: bool
  records :: "vector_record list"

record rag_engine =
  ollama_available :: "bool option"
  coll :: collection

definition get_default :: "(string \<times> string) list \<Rightarrow> string \<Rightarrow> string \<Rightarrow> string" where
  \<comment> \<open>\<open>d.get(key, default)\<close>\<close>
  "get_default d key dflt = (case map_of d key of None \<Rightarrow> dflt | Some v \<Rightarrow> v)"

definition model_base :: string where
  \<comment> \<open>\<open>OLLAMA_MODEL.split(':')[0]\<close>\<close>
  "model_base = takeWhile (\<lambda>c. c \<noteq> CHR '':'') OLLAMA_MODEL"

definition check_ollama_available :: "ollama \<Rightarrow> rag_engine \<Rightarrow> bool \<times> rag_engine" where
  "check_ollama_available ol eng =
     (case ollama_available eng of
        Some b \<Rightarrow> (b, eng)
      | None \<Rightarrow>
          (case list_models ol of
             Inr model_names \<Rightarrow>
               let a = (list_ex (\<lambda>name. sublist model_base name) model_names
                        \<or> 0 < length model_names)
               in (a, eng\<lparr>ollama_available := Some a\<rparr>)
           | Inl e \<Rightarrow> (False, eng\<lparr>ollama_available := Some False\<rparr>)))"

definition excerpt :: "nat \<Rightarrow> context_chunk \<Rightarrow> string" where
  \<comment> \<open>What the loop of \<open>_fallback_response\<close> adds for chunk number \<open>i\<close>.\<close>
  "excerpt i chunk =
     (let filename = get_default (metadata chunk) ''filename'' ''Unknown''
      in ''**'' @ str_nat i @ ''. From '' @ filename @ '':**'' @ NL
       @ take 500 (ctext chunk) @ ''...'' @ NL @ NL)"

definition fallback_response :: "string \<Rightarrow> context_chunk list \<Rightarrow> string" where
  \<comment> \<open>\<open>enumerate(context_chunks[:3], 1)\<close> pairs the first three chunks with 1, 2, 3.\<close>
  "fallback_response query context_chunks =
     (if context_chunks = [] then ''No relevant documents found for your query.''
      else ''**Ollama LLM not available. Here are the relevant document excerpts:**'' @ NL @ NL
         @ concat (map (\<lambda>(i, chunk). excerpt i chunk)
                       (zip [1 ..< Suc (length (take 3 context_chunks))] (take 3 context_chunks)))
         @ NL @ ''*Install and run Ollama to get AI-powered answers: https://ollama.ai*'')"

definition build_prompt :: "string \<Rightarrow> context_chunk list \<Rightarrow> string" where
  "build_prompt query context_chunks =
     (let context = join (NL @ NL @ ''---'' @ NL @ NL)
                      (map (\<lambda>chunk. ''[Source: '' @ get_default (metadata chunk) ''filename'' ''Unknown''
                                     @ '']'' @ NL @ ctext chunk)
                           context_chunks)
      in ''You are a helpful banking document assistant. Answer the user's question based ONLY on the provided context. If the information is not in the context, say \"I don't have that information in the uploaded documents.\"''
         @ NL @ NL @ ''CONTEXT:'' @ NL @ context @ NL @ NL
         @ ''USER QUESTION: '' @ query @ NL @ NL
         @ ''INSTRUCTIONS:'' @ NL
         @ ''- Answer based only on the context above'' @ NL
         @ ''- Be concise and accurate'' @ NL
         @ ''- Cite the source document when possible'' @ NL
         @ ''- If you can't find the answer, say so clearly'' @ NL @ NL
         @ ''ANSWER:'')"

definition try_except :: "error + 'a \<Rightarrow> (error \<Rightarrow> error + 'a) \<Rightarrow> error + 'a" where
  \<comment> \<open>\<open>try: body  except Exception as e: handler\<close>\<close>
  "try_except body handler = (case body of Inl e \<Rightarrow> handler e | Inr v \<Rightarrow> Inr v)"

definition generate_response ::
  "ollama \<Rightarrow> rag_engine \<Rightarrow> string \<Rightarrow> context_chunk list \<Rightarrow> int \<Rightarrow> (error + string) \<times> rag_engine" where
  "generate_response ol eng query context_chunks max_tokens =
     (let (available, eng') = check_ollama_available ol eng
      in if \<not> available then (Inr (fallback_response query context_chunks), eng')
         else let prompt = build_prompt query context_chunks
              in (try_except (chat ol prompt max_tokens)
                    (\<lambda>e. Inr (fallback_response query context_chunks)),
                  eng'))"

definition coll_get :: "collection \<Rightarrow> string \<Rightarrow> string \<Rightarrow> error + string list" where
  \<comment> \<open>\<open>collection.get(where={key: value})['ids']\<close>\<close>
  "coll_get c key v =
     (if \<not> reachable c then Inl BackendError
      else Inr (map vid (filter (\<lambda>r. map_of (vmeta r) key = Some v) (records c))))"

definition coll_delete :: "collection \<Rightarrow> string list \<Rightarrow> error + collection" where
  \<comment> \<open>\<open>collection.delete(ids=ids)\<close>\<close>
  "coll_delete c ids =
     (if \<not> reachable c then Inl BackendError
      else Inr (c\<lparr>records := filter (\<lambda>r. vid r \<notin> set ids) (records c)\<rparr>))"

definition delete_document_embeddings :: "rag_engine \<Rightarrow> string \<Rightarrow> (error + bool) \<times> rag_engine" where
  "delete_document_embeddings eng doc_id =
     (case coll_get (coll eng) ''document_id'' doc_id of
        Inl e \<Rightarrow> (Inr False, eng)
      | Inr ids \<Rightarrow>
          if ids \<noteq> []
          then (case coll_delete (coll eng) ids of
                  Inl e \<Rightarrow> (Inr False, eng)
                | Inr c' \<Rightarrow> (Inr True, eng\<lparr>coll := c'\<rparr>))
          else (Inr True, eng))"

section \<open>Notions of the specification\<close>

text \<open>
  The words of the claims that the code has no name for: the document types in the order
  of their declaration, a keyword occurring in a text whatever the case of its letters,
  the number of keywords of a type that occur so, and a record belonging to a document.
\<close>

definition doc_types :: "string list" where
  "doc_types = map fst classifications"

definition ci_hit :: "string \<Rightarrow> string \<Rightarrow> bool" where
  "ci_hit kw text = (\<exists>u. sublist u text \<and> lower u = lower kw)"

definition hits :: "string \<Rightarrow> string \<Rightarrow> nat" where
  "hits doc_type text =
     (case map_of classifications doc_type of
        None \<Rightarrow> 0
      | Some keywords \<Rightarrow> length (filter (\<lambda>kw. ci_hit kw text) keywords))"

definition guarded :: "int \<Rightarrow> int \<Rightarrow> bool" where
  \<comment> \<open>The sizes for which every window of \<open>chunk_text\<close> starts after the one before.\<close>
  "guarded chunk_size overlap = (overlap < chunk_size \<and> overlap \<le> chunk_size div 2 + 1)"

definition belongs :: "string \<Rightarrow> vector_record \<Rightarrow> bool" where
  \<comment> \<open>The record's metadata names the document.\<close>
  "belongs doc_id r = (map_of (vmeta r) ''document_id'' = Some doc_id)"

section \<open>Properties of the regular expressions\<close>

lemma takeWhile_length_ge:
  "n \<le> length (takeWhile P xs) \<longleftrightarrow> n \<le> length xs \<and> (\<forall>j<n. P (xs ! j))"
proof (induction xs arbitrary: n)
  case Nil
  then show ?case by auto
next
  case (Cons x xs)
  show ?case
  proof (cases n)
    case 0
    then show ?thesis by simp
  next
    case (Suc m)
    then show ?thesis using Cons.IH [of m]
      by (auto simp: less_Suc_eq_0_disj)
  qed
qed

lemma run_length_ge:
  "n \<le> run_length ic s cs i \<longleftrightarrow>
     n = 0 \<or> (i + n \<le> length s \<and> (\<forall>j<n. in_cls ic cs (s ! (i + j))))"
  by (cases "i \<le> length s") (auto simp: run_length_def takeWhile_length_ge)

lemma rx_times:
  "rx ic s (times n cs) i k =
     (if n = 0 \<or> (i + n \<le> length s \<and> (\<forall>j<n. in_cls ic cs (s ! (i + j))))
      then k (i + n) else None)"
proof (cases "n \<le> run_length ic s cs i")
  case True
  then have "rep_ends ic s cs n (Some n) i = [i + n]"
    by (simp add: rep_ends_def Let_def min_absorb1)
  with True show ?thesis
    by (simp add: times_def run_length_ge split: option.split)
next
  case False
  then have "rep_ends ic s cs n (Some n) i = []"
    by (simp add: rep_ends_def Let_def)
  with False show ?thesis
    by (auto simp: times_def run_length_ge)
qed

lemma in_cls_AZ: "in_cls False AZ c = is_upper_az c"
  by (simp add: in_cls_def AZ_def is_upper_az_def in_range_def code_def)

lemma in_cls_D09: "in_cls False D09 c = is_digit c"
  by (simp add: in_cls_def D09_def is_digit_def in_range_def code_def)


lemma in_cls_AZ09:
  "in_cls False [CRange CHR ''A'' CHR ''Z'', CRange CHR ''0'' CHR ''9''] c
     = (is_upper_az c \<or> is_digit c)"
  by (simp add: in_cls_def is_upper_az_def is_digit_def in_range_def code_def)

lemma in_cls_char: "in_cls False [CChar a] c = (c = a)"
  by (simp add: in_cls_def)

lemma re_match_pan:
  "re_match (seq [Bol, times 5 AZ, times 4 D09, Cls AZ, Eol]) s \<longleftrightarrow>
     (length s = 10 \<or> (length s = 11 \<and> s ! 10 = CHR 0x0A)) \<and>
     (\<forall>j<5. is_upper_az (s ! j)) \<and> (\<forall>j<4. is_digit (s ! (5 + j))) \<and> is_upper_az (s ! 9)"
  by (auto simp: re_match_def match_at_def rx_times in_cls_AZ in_cls_D09 at_end_def)


lemma re_match_ifsc:
  "re_match (seq [Bol, times 4 AZ, lit CHR ''0'',
                  times 6 [CRange CHR ''A'' CHR ''Z'', CRange CHR ''0'' CHR ''9''], Eol]) s \<longleftrightarrow>
     (length s = 11 \<or> (length s = 12 \<and> s ! 11 = CHR 0x0A)) \<and>
     (\<forall>j<4. is_upper_az (s ! j)) \<and> s ! 4 = CHR ''0'' \<and>
     (\<forall>j<6. is_upper_az (s ! (5 + j)) \<or> is_digit (s ! (5 + j)))"
  by (auto simp: re_match_def match_at_def rx_times in_cls_AZ in_cls_AZ09 lit_def in_cls_char at_end_def)

lemma not_lower_upper: "is_upper_az c \<Longrightarrow> \<not> is_lower c"
  by (auto simp: is_upper_az_def is_lower_def is_lower_az_def in_range_def)

lemma not_lower_digit: "is_digit c \<Longrightarrow> \<not> is_lower c"
  by (auto simp: is_digit_def is_lower_def is_lower_az_def in_range_def)

lemma not_lower_newline: "\<not> is_lower (CHR 0x0A)"
  by (simp add: is_lower_def is_lower_az_def in_range_def code_def)

lemma not_lower_zero: "\<not> is_lower (CHR ''0'')"
  by (simp add: is_lower_def is_lower_az_def in_range_def code_def)

lemma all_shift: "(\<forall>j<n. P (i + j)) \<longleftrightarrow> (\<forall>j::nat. i \<le> j \<and> j < i + n \<longrightarrow> P j)"
proof
  assume h: "\<forall>j<n. P (i + j)"
  show "\<forall>j. i \<le> j \<and> j < i + n \<longrightarrow> P j"
  proof (intro allI impI)
    fix j assume "i \<le> j \<and> j < i + n"
    then have "j - i < n" and "i + (j - i) = j" by auto
    with h show "P j" by metis
  qed
next
  assume "\<forall>j. i \<le> j \<and> j < i + n \<longrightarrow> P j"
  then show "\<forall>j<n. P (i + j)" by simp
qed

lemma validate_pan_chars:
  assumes "validate_pan s" and "j < length s"
  shows "is_upper_az (s ! j) \<or> is_digit (s ! j) \<or> s ! j = CHR 0x0A"
proof -
  from assms(1) have m: "re_match (seq [Bol, times 5 AZ, times 4 D09, Cls AZ, Eol]) s"
    by (simp add: validate_pan_def split: if_splits)
  then have len: "length s = 10 \<or> (length s = 11 \<and> s ! 10 = CHR 0x0A)"
    and up: "\<forall>j<5. is_upper_az (s ! j)"
    and dg: "\<forall>j. 5 \<le> j \<and> j < 5 + 4 \<longrightarrow> is_digit (s ! j)"
    and l9: "is_upper_az (s ! 9)"
    unfolding re_match_pan all_shift [symmetric] by simp_all
  from len assms(2) have "j < 5 \<or> (5 \<le> j \<and> j < 5 + 4) \<or> j = 9 \<or> (j = 10 \<and> s ! 10 = CHR 0x0A)"
    by arith
  with up dg l9 show ?thesis by blast
qed

section \<open>Validation of identifiers\<close>

lemma validate_pan_rule:
  "validate_pan s \<longleftrightarrow>
     (length s = 10 \<or> (length s = 11 \<and> s ! 10 = CHR 0x0A)) \<and>
     (\<forall>j<5. is_upper_az (s ! j)) \<and> (\<forall>j<4. is_digit (s ! (5 + j))) \<and> is_upper_az (s ! 9) \<and>
     s ! 3 \<in> set ''PCHFATBLJG''"
  unfolding validate_pan_def re_match_pan by auto

text \<open>
  C6. The claim: \<open>validate_pan\<close> accepts a string exactly when it has 10 characters of
  the form \<open>[A-Z]{5}[0-9]{4}[A-Z]\<close> and its fourth character is one of PCHFATBLJG.
  The pattern ends in \<open>$\<close>, which also matches just before a final newline, so a valid
  number followed by a newline, 11 characters, is accepted too.
\<close>

theorem validate_pan_trailing_newline:
  "validate_pan (''ABCPE1234F'' @ [CHR 0x0A]) \<and> length (''ABCPE1234F'' @ [CHR 0x0A]) = 11"
  by code_simp







lemma validate_ifsc_chars:
  assumes "validate_ifsc s" and "j < length s"
  shows "is_upper_az (s ! j) \<or> is_digit (s ! j) \<or> s ! j = CHR 0x0A"
proof -
  from assms(1) have len: "length s = 11 \<or> (length s = 12 \<and> s ! 11 = CHR 0x0A)"
    and up: "\<forall>j<4. is_upper_az (s ! j)"
    and z: "s ! 4 = CHR ''0''"
    and br: "\<forall>j. 5 \<le> j \<and> j < 5 + 6 \<longrightarrow> is_upper_az (s ! j) \<or> is_digit (s ! j)"
    unfolding validate_ifsc_def re_match_ifsc all_shift [symmetric] by simp_all
  have d0: "is_digit (CHR ''0'')"
    by (simp add: is_digit_def in_range_def code_def)
  from len assms(2) have "j < 4 \<or> j = 4 \<or> (5 \<le> j \<and> j < 5 + 6) \<or> (j = 11 \<and> s ! 11 = CHR 0x0A)"
    by arith
  with up z br d0 show ?thesis by metis
qed

lemma lower_not_allowed:
  "is_lower c \<Longrightarrow> \<not> (is_upper_az c \<or> is_digit c \<or> c = CHR 0x0A)"
  using not_lower_upper not_lower_digit not_lower_newline by blast

lemma lowercase_not_pan: "\<exists>c\<in>set s. is_lower c \<Longrightarrow> \<not> validate_pan s"
  by (metis in_set_conv_nth lower_not_allowed validate_pan_chars)

lemma lowercase_not_ifsc: "\<exists>c\<in>set s. is_lower c \<Longrightarrow> \<not> validate_ifsc s"
  by (metis in_set_conv_nth lower_not_allowed validate_ifsc_chars)

lemma validated_entry_flags:
  assumes "(name, vals) \<in> set (validated_entry entities key name' check)" "(v, ok) \<in> set vals"
  shows "ok = check v"
  using assms by (auto simp: validated_entry_def split: option.splits)

lemma extract_lower_pan: "extract_entities ''abcpe1234f'' = [(''pan_number'', [''abcpe1234f''])]"
  by code_simp

lemma extract_lower_ifsc: "extract_entities ''sbin0001234'' = [(''ifsc_code'', [''sbin0001234''])]"
  by code_simp

lemma summary_flags:
  assumes "(name, vals) \<in> set (validated (get_entity_summary entities))"
    and "name = ''pan_numbers'' \<or> name = ''ifsc_codes''"
    and "(v, ok) \<in> set vals"
  shows "ok = (if name = ''pan_numbers'' then validate_pan v else validate_ifsc v)"
  using assms
  by (auto simp: get_entity_summary_def validated_entry_def split: option.splits)

text \<open>
  C10. A string with a lowercase letter is rejected by \<open>validate_pan\<close> and by
  \<open>validate_ifsc\<close>. The extraction ignores case and does return such values
  (\<open>abcpe1234f\<close> as a PAN number, \<open>sbin0001234\<close> as an IFSC code). In the summary of
  any text every PAN number and IFSC code with a lowercase letter is flagged invalid,
  and a text whose PAN numbers all have a lowercase letter gets no PAN bonus.
\<close>

theorem lowercase_never_valid:
  "((\<exists>c\<in>set s. is_lower c) \<longrightarrow> \<not> validate_pan s \<and> \<not> validate_ifsc s)
   \<and> extract_entities ''abcpe1234f'' = [(''pan_number'', [''abcpe1234f''])]
   \<and> extract_entities ''sbin0001234'' = [(''ifsc_code'', [''sbin0001234''])]
   \<and> (\<forall>(name, vals) \<in> set (validated (get_entity_summary (extract_entities text))).
         name = ''pan_numbers'' \<or> name = ''ifsc_codes'' \<longrightarrow>
         (\<forall>(v, ok) \<in> set vals. (\<exists>c\<in>set v. is_lower c) \<longrightarrow> \<not> ok))
   \<and> ((\<forall>vs. map_of (extract_entities text) ''pan_number'' = Some vs \<longrightarrow>
             (\<forall>v\<in>set vs. \<exists>c\<in>set v. is_lower c))
        \<longrightarrow> bonus_for (extract_entities text) ''pan_number'' validate_pan = 0)"
proof (intro conjI)
  show "(\<exists>c\<in>set s. is_lower c) \<longrightarrow> \<not> validate_pan s \<and> \<not> validate_ifsc s"
    using lowercase_not_pan lowercase_not_ifsc by blast
  show "extract_entities ''abcpe1234f'' = [(''pan_number'', [''abcpe1234f''])]"
    by (rule extract_lower_pan)
  show "extract_entities ''sbin0001234'' = [(''ifsc_code'', [''sbin0001234''])]"
    by (rule extract_lower_ifsc)
  show "\<forall>(name, vals) \<in> set (validated (get_entity_summary (extract_entities text))).
         name = ''pan_numbers'' \<or> name = ''ifsc_codes'' \<longrightarrow>
         (\<forall>(v, ok) \<in> set vals. (\<exists>c\<in>set v. is_lower c) \<longrightarrow> \<not> ok)"
  proof (clarify)
    fix name vals v ok c
    assume a: "(name, vals) \<in> set (validated (get_entity_summary (extract_entities text)))"
      "name = ''pan_numbers'' \<or> name = ''ifsc_codes''" "(v, ok) \<in> set vals"
      and c: "c \<in> set v" "is_lower c" and ok: ok
    from summary_flags [OF a] ok have "validate_pan v \<or> validate_ifsc v"
      by (auto split: if_splits)
    with c lowercase_not_pan lowercase_not_ifsc show False by blast
  qed
  show "(\<forall>vs. map_of (extract_entities text) ''pan_number'' = Some vs \<longrightarrow>
             (\<forall>v\<in>set vs. \<exists>c\<in>set v. is_lower c))
        \<longrightarrow> bonus_for (extract_entities text) ''pan_number'' validate_pan = 0"
  proof
    assume h: "\<forall>vs. map_of (extract_entities text) ''pan_number'' = Some vs \<longrightarrow>
             (\<forall>v\<in>set vs. \<exists>c\<in>set v. is_lower c)"
    show "bonus_for (extract_entities text) ''pan_number'' validate_pan = 0"
    proof (cases "map_of (extract_entities text) ''pan_number''")
      case None
      then show ?thesis by (simp add: bonus_for_def)
    next
      case (Some vs)
      with h have "\<forall>v\<in>set vs. \<not> validate_pan v"
        using lowercase_not_pan by blast
      then have "filter validate_pan vs = []"
        by (simp add: filter_empty_conv)
      with Some show ?thesis by (simp add: bonus_for_def)
    qed
  qed
qed

theorem lowercase_never_valid_witness:
  "(\<exists>c\<in>set ''abcpe1234f''. is_lower c)
   \<and> \<not> validate_pan ''abcpe1234f'' \<and> \<not> validate_ifsc ''abcpe1234f''
   \<and> validated (get_entity_summary (extract_entities ''abcpe1234f''))
       = [(''pan_numbers'', [(''abcpe1234f'', False)])]
   \<and> map_of (extract_entities ''abcpe1234f'') ''pan_number'' = Some [''abcpe1234f'']
   \<and> bonus_for (extract_entities ''abcpe1234f'') ''pan_number'' validate_pan = 0"
proof -
  have lw: "\<exists>c\<in>set ''abcpe1234f''. is_lower c"
    by code_simp
  have np: "\<not> validate_pan ''abcpe1234f''"
    by code_simp
  have sm: "validated (get_entity_summary (extract_entities ''abcpe1234f''))
       = [(''pan_numbers'', [(''abcpe1234f'', False)])]"
    by (simp add: extract_lower_pan get_entity_summary_def validated_entry_def np)
  have mp: "map_of (extract_entities ''abcpe1234f'') ''pan_number'' = Some [''abcpe1234f'']"
    by (simp add: extract_lower_pan)
  note t = lowercase_never_valid [of "''abcpe1234f''" "''abcpe1234f''"]
  from t lw have v: "\<not> validate_pan ''abcpe1234f'' \<and> \<not> validate_ifsc ''abcpe1234f''"
    by blast
  have hyp: "\<forall>vs. map_of (extract_entities ''abcpe1234f'') ''pan_number'' = Some vs \<longrightarrow>
             (\<forall>v\<in>set vs. \<exists>c\<in>set v. is_lower c)"
  proof (intro allI impI ballI)
    fix vs v
    assume "map_of (extract_entities ''abcpe1234f'') ''pan_number'' = Some vs" "v \<in> set vs"
    with mp have "v = ''abcpe1234f''" by simp
    with lw show "\<exists>c\<in>set v. is_lower c" by blast
  qed
  from t hyp have b: "bonus_for (extract_entities ''abcpe1234f'') ''pan_number'' validate_pan = 0"
    by blast
  from lw v sm mp b show ?thesis by blast
qed

section \<open>Quality score\<close>










section \<open>Classification\<close>

lemma fold_max_first:
  fixes f :: "'a \<Rightarrow> nat"
  shows "\<exists>j<length (b # xs).
      fold (\<lambda>y best. if f best < f y then y else best) xs b = (b # xs) ! j
    \<and> (\<forall>i<length (b # xs). f ((b # xs) ! i) \<le> f ((b # xs) ! j))
    \<and> (\<forall>i<j. f ((b # xs) ! i) < f ((b # xs) ! j))"
proof (induction xs rule: rev_induct)
  case Nil
  show ?case by simp
next
  case (snoc y xs)
  let ?step = "\<lambda>y best. if f best < f y then y else best"
  from snoc obtain j where j: "j < length (b # xs)"
    and best: "fold ?step xs b = (b # xs) ! j"
    and mx: "\<forall>i<length (b # xs). f ((b # xs) ! i) \<le> f ((b # xs) ! j)"
    and fst: "\<forall>i<j. f ((b # xs) ! i) < f ((b # xs) ! j)"
    by blast
  have old: "(b # xs @ [y]) ! i = (b # xs) ! i" if "i < length (b # xs)" for i
    using that by (metis append_Cons nth_append)
  have new: "(b # xs @ [y]) ! length (b # xs) = y"
    by (metis append_Cons nth_append_length)
  show ?case
  proof (cases "f ((b # xs) ! j) < f y")
    case True
    have "fold ?step (xs @ [y]) b = (b # xs @ [y]) ! length (b # xs)"
      using True best new by simp
    moreover have "\<forall>i<length (b # xs @ [y]). f ((b # xs @ [y]) ! i) \<le> f ((b # xs @ [y]) ! length (b # xs))"
    proof (intro allI impI)
      fix i assume "i < length (b # xs @ [y])"
      then consider "i < length (b # xs)" | "i = length (b # xs)" by fastforce
      then show "f ((b # xs @ [y]) ! i) \<le> f ((b # xs @ [y]) ! length (b # xs))"
      proof cases
        case 1
        with mx True show ?thesis unfolding new old [OF 1] by fastforce
      next
        case 2
        then show ?thesis by simp
      qed
    qed
    moreover have "\<forall>i<length (b # xs). f ((b # xs @ [y]) ! i) < f ((b # xs @ [y]) ! length (b # xs))"
    proof (intro allI impI)
      fix i assume 1: "i < length (b # xs)"
      with mx True show "f ((b # xs @ [y]) ! i) < f ((b # xs @ [y]) ! length (b # xs))"
        unfolding new old [OF 1] by fastforce
    qed
    moreover have "length (b # xs) < length (b # xs @ [y])" by simp
    ultimately show ?thesis by blast
  next
    case False
    have jj: "j < length (b # xs @ [y])" using j by simp
    have "fold ?step (xs @ [y]) b = (b # xs @ [y]) ! j"
      using False best old [OF j] by simp
    moreover have "\<forall>i<length (b # xs @ [y]). f ((b # xs @ [y]) ! i) \<le> f ((b # xs @ [y]) ! j)"
    proof (intro allI impI)
      fix i assume "i < length (b # xs @ [y])"
      then consider "i < length (b # xs)" | "i = length (b # xs)" by fastforce
      then show "f ((b # xs @ [y]) ! i) \<le> f ((b # xs @ [y]) ! j)"
      proof cases
        case 1
        with mx show ?thesis unfolding old [OF 1] old [OF j] by blast
      next
        case 2
        with False show ?thesis unfolding 2 new old [OF j] by simp
      qed
    qed
    moreover have "\<forall>i<j. f ((b # xs @ [y]) ! i) < f ((b # xs @ [y]) ! j)"
    proof (intro allI impI)
      fix i assume ij: "i < j"
      with j have 1: "i < length (b # xs)" by simp
      from fst ij show "f ((b # xs @ [y]) ! i) < f ((b # xs @ [y]) ! j)"
        unfolding old [OF 1] old [OF j] by blast
    qed
    ultimately show ?thesis using jj by blast
  qed
qed

lemma py_max_first:
  fixes f :: "'a \<Rightarrow> nat"
  assumes "xs \<noteq> []"
  shows "\<exists>j<length xs. py_max f xs = Inr (xs ! j)
           \<and> (\<forall>i<length xs. f (xs ! i) \<le> f (xs ! j))
           \<and> (\<forall>i<j. f (xs ! i) < f (xs ! j))"
proof -
  from assms obtain b ys where xs: "xs = b # ys" by (cases xs) auto
  from fold_max_first [of b ys f] show ?thesis
    unfolding xs py_max.simps by blast
qed

lemma sublist_lower:
  "sublist kw (lower text) \<longleftrightarrow> (\<exists>u. sublist u text \<and> lower u = kw)"
proof
  assume "sublist kw (lower text)"
  then obtain ps ss where "map lower_char text = ps @ kw @ ss"
    unfolding sublist_def lower_def by blast
  then obtain us vs where t: "text = us @ vs" and "map lower_char vs = kw @ ss"
    by (metis map_eq_append_conv)
  then obtain u w where v: "vs = u @ w" and "map lower_char u = kw"
    by (metis map_eq_append_conv)
  with t have "sublist u text \<and> lower u = kw"
    unfolding sublist_def lower_def by blast
  then show "\<exists>u. sublist u text \<and> lower u = kw" by blast
next
  assume "\<exists>u. sublist u text \<and> lower u = kw"
  then obtain u ps ss where "text = ps @ u @ ss" and "lower u = kw"
    unfolding sublist_def by blast
  then have "lower text = lower ps @ kw @ lower ss"
    by (simp add: lower_def)
  then show "sublist kw (lower text)"
    unfolding sublist_def by blast
qed

lemma ci_hit_lower: "lower kw = kw \<Longrightarrow> ci_hit kw text = sublist kw (lower text)"
  by (simp add: ci_hit_def sublist_lower)

lemma keywords_lower:
  "list_all (\<lambda>(doc_type, keywords). list_all (\<lambda>kw. lower kw = kw) keywords) classifications"
  by code_simp

lemma types_distinct: "distinct (map fst classifications)"
  by (simp add: classifications_def)

lemma hits_score:
  assumes "i < length classifications"
  shows "hits (doc_types ! i) text = keyword_score (lower text) (snd (classifications ! i))"
proof -
  let ?p = "classifications ! i"
  from assms have mem: "?p \<in> set classifications" by simp
  then have "(fst ?p, snd ?p) \<in> set classifications" by simp
  with types_distinct have m: "map_of classifications (fst ?p) = Some (snd ?p)"
    by (rule map_of_is_SomeI)
  from keywords_lower mem have "\<forall>kw\<in>set (snd ?p). lower kw = kw"
    unfolding list_all_iff by fastforce
  then have "filter (\<lambda>kw. ci_hit kw text) (snd ?p) = filter (\<lambda>kw. sublist kw (lower text)) (snd ?p)"
    by (auto intro: filter_cong simp: ci_hit_lower)
  with m assms show ?thesis
    by (simp add: hits_def doc_types_def keyword_score_def)
qed

text \<open>
  C4. \<open>classify_document\<close> returns \<open>other\<close> when no keyword of any type occurs in the
  text, whatever the case of the letters. Otherwise it returns a type with the most
  keywords occurring, and every type declared before it has strictly fewer: among the
  types with the most hits it is the first in the order of declaration.
\<close>

theorem classify_document_most_hits:
  "\<exists>r. classify_document text = Inr r \<and>
     (if \<forall>t\<in>set doc_types. hits t text = 0 then r = ''other''
      else \<exists>j<length doc_types. r = doc_types ! j
             \<and> (\<forall>i<length doc_types. hits (doc_types ! i) text \<le> hits r text)
             \<and> (\<forall>i<j. hits (doc_types ! i) text < hits r text))"
proof -
  let ?scores = "map (\<lambda>(doc_type, keywords). (doc_type, keyword_score (lower text) keywords))
                       classifications"
  have len: "length ?scores = length classifications" "length doc_types = length classifications"
    by (simp_all add: doc_types_def)
  have ne: "?scores \<noteq> []"
    by (simp add: classifications_def)
  have sc: "?scores ! i = (doc_types ! i, hits (doc_types ! i) text)" if "i < length classifications" for i
    using that hits_score [OF that] by (simp add: doc_types_def split_def)
  from py_max_first [OF ne, of snd] obtain j where j: "j < length classifications"
    and best: "py_max snd ?scores = Inr (?scores ! j)"
    and mx: "\<forall>i<length classifications. snd (?scores ! i) \<le> snd (?scores ! j)"
    and fs: "\<forall>i<j. snd (?scores ! i) < snd (?scores ! j)"
    unfolding len by blast
  from mx sc j have mx': "\<forall>i<length doc_types. hits (doc_types ! i) text \<le> hits (doc_types ! j) text"
    unfolding len by simp
  from fs sc j have fs': "\<forall>i<j. hits (doc_types ! i) text < hits (doc_types ! j) text"
    by simp
  have cl: "classify_document text =
              (if hits (doc_types ! j) text = 0 then Inr ''other'' else Inr (doc_types ! j))"
    unfolding classify_document_def Let_def best sc [OF j] by simp
  have zero: "(\<forall>t\<in>set doc_types. hits t text = 0) \<longleftrightarrow> hits (doc_types ! j) text = 0"
  proof
    assume "\<forall>t\<in>set doc_types. hits t text = 0"
    with j len show "hits (doc_types ! j) text = 0" by simp
  next
    assume z: "hits (doc_types ! j) text = 0"
    show "\<forall>t\<in>set doc_types. hits t text = 0"
    proof
      fix t assume "t \<in> set doc_types"
      then obtain i where "i < length doc_types" "t = doc_types ! i"
        by (metis in_set_conv_nth)
      with mx' z show "hits t text = 0" by fastforce
    qed
  qed
  show ?thesis
  proof (cases "hits (doc_types ! j) text = 0")
    case True
    with cl zero show ?thesis by simp
  next
    case False
    with cl zero j len mx' fs' show ?thesis by auto
  qed
qed


theorem classify_document_most_hits_witness:
  "classify_document ''KYC and EMI'' = Inr ''loan_application''
   \<and> hits ''loan_application'' ''KYC and EMI'' = 1
   \<and> hits ''kyc_document'' ''KYC and EMI'' = 1
   \<and> hits ''bank_statement'' ''KYC and EMI'' \<le> hits ''loan_application'' ''KYC and EMI''
   \<and> hits ''salary_slip'' ''KYC and EMI'' \<le> hits ''loan_application'' ''KYC and EMI''"
proof -
  have c: "classify_document ''KYC and EMI'' = Inr ''loan_application''"
    by code_simp
  have l: "length classifications = 4" "length doc_types = 4"
    by (simp_all add: doc_types_def classifications_def)
  have d: "doc_types ! 0 = ''loan_application''" "doc_types ! 1 = ''kyc_document''"
    "doc_types ! 2 = ''bank_statement''" "doc_types ! 3 = ''salary_slip''"
    by (simp_all add: doc_types_def classifications_def)
  have k0: "keyword_score (lower ''KYC and EMI'') (snd (classifications ! 0)) = 1"
    by code_simp
  have k1: "keyword_score (lower ''KYC and EMI'') (snd (classifications ! 1)) = 1"
    by code_simp
  have h0: "hits ''loan_application'' ''KYC and EMI'' = 1"
    using hits_score [of 0 "''KYC and EMI''"] l d k0 by simp
  have h1: "hits ''kyc_document'' ''KYC and EMI'' = 1"
    using hits_score [of 1 "''KYC and EMI''"] l d k1 by simp
  have m: "''loan_application'' \<in> set doc_types"
    by (simp add: doc_types_def classifications_def)
  with h0 have nz: "\<not> (\<forall>t\<in>set doc_types. hits t ''KYC and EMI'' = 0)"
    by force
  from classify_document_most_hits [of "''KYC and EMI''"] c nz
  have a: "\<forall>i<length doc_types. hits (doc_types ! i) ''KYC and EMI'' \<le> hits ''loan_application'' ''KYC and EMI''"
    by auto
  from a l have "hits (doc_types ! 2) ''KYC and EMI'' \<le> hits ''loan_application'' ''KYC and EMI''"
    by simp
  moreover from a l have "hits (doc_types ! 3) ''KYC and EMI'' \<le> hits ''loan_application'' ''KYC and EMI''"
    by simp
  ultimately show ?thesis
    using c h0 h1 d by simp
qed

section \<open>Chunking\<close>

text \<open>
  With an overlap below the chunk size, and at most half the chunk size plus one, every
  run of the loop moves the start forward, no index is out of range, and the loop ends
  after at most as many runs as the text has characters. The default sizes are such.
  No chunk that the loop adds is empty.
\<close>

lemma find_break_range:
  "0 \<le> stop \<Longrightarrow> i < int (length text0) \<Longrightarrow>
     \<exists>b. find_break text0 i stop = Inr b \<and> (\<forall>e. b = Some e \<longrightarrow> stop + 2 \<le> e \<and> e \<le> i + 1)"
proof (induction text0 i stop rule: find_break.induct)
  case (1 text0 i stop)
  show ?case
  proof (cases "i \<le> stop")
    case True
    then show ?thesis by (simp add: find_break.simps [of text0 i stop])
  next
    case False
    with "1.prems" have ix: "py_index text0 i = Inr (text0 ! nat i)"
      by (simp add: py_index_def Let_def)
    show ?thesis
    proof (cases "sentence_end (text0 ! nat i)")
      case True
      with False ix show ?thesis
        by (simp add: find_break.simps [of text0 i stop])
    next
      case nb: False
      from "1.IH" [OF False ix nb] "1.prems"
      obtain b where "find_break text0 (i - 1) stop = Inr b"
        and "\<forall>e. b = Some e \<longrightarrow> stop + 2 \<le> e \<and> e \<le> i - 1 + 1"
        by auto
      with False ix nb show ?thesis
        by (auto simp: find_break.simps [of text0 i stop])
    qed
  qed
qed

lemma chunk_step_progress:
  assumes "guarded chunk_size overlap" and "0 \<le> start st"
  shows "\<exists>st'. chunk_step text0 chunk_size overlap st = Inr st' \<and> start st < start st'"
proof (cases "start st + chunk_size < int (length text0)")
  case True
  let ?stop = "max (start st + chunk_size div 2) (start st)"
  from assms(2) have "0 \<le> ?stop" by simp
  from find_break_range [OF this True]
  obtain b where b: "find_break text0 (start st + chunk_size) ?stop = Inr b"
    and r: "\<forall>e. b = Some e \<longrightarrow> ?stop + 2 \<le> e \<and> e \<le> start st + chunk_size + 1"
    by blast
  have "start st < (case b of Some e \<Rightarrow> e | None \<Rightarrow> start st + chunk_size) - overlap"
    using r assms(1) by (cases b) (auto simp: guarded_def)
  with True b show ?thesis
    by (simp add: chunk_step_def Let_def del: find_break.simps)
next
  case False
  with assms(1) show ?thesis
    by (simp add: chunk_step_def Let_def guarded_def del: find_break.simps)
qed

lemma chunk_loop_returns:
  assumes "guarded chunk_size overlap"
  shows "0 \<le> start st \<Longrightarrow> nat (int (length text0) - start st) \<le> fuel \<Longrightarrow>
           \<exists>r. chunk_loop fuel text0 chunk_size overlap st = Some (Inr r)"
proof (induction fuel arbitrary: st)
  case 0
  then show ?case by simp
next
  case (Suc n)
  show ?case
  proof (cases "start st < int (length text0)")
    case False
    then show ?thesis by simp
  next
    case True
    from chunk_step_progress [OF assms Suc.prems(1)]
    obtain st' where s: "chunk_step text0 chunk_size overlap st = Inr st'" and p: "start st < start st'"
      by blast
    from p Suc.prems have "0 \<le> start st'" "nat (int (length text0) - start st') \<le> n"
      by simp_all
    from Suc.IH [OF this] s True show ?thesis
      by (simp del: chunk_loop.simps add: chunk_loop.simps [of "Suc n"])
  qed
qed

lemma chunk_text_returns:
  "guarded chunk_size overlap \<Longrightarrow>
     \<exists>r. chunk_text (length (normalize text0)) text0 chunk_size overlap = Some (Inr r)"
  using chunk_loop_returns [of chunk_size overlap "\<lparr>start = 0, chunks = [], chunk_index = 0\<rparr>"
      "normalize text0" "length (normalize text0)"]
  by (simp add: chunk_text_def Let_def del: chunk_loop.simps)

lemma default_guarded: "guarded CHUNK_SIZE CHUNK_OVERLAP"
  by (simp add: guarded_def CHUNK_SIZE_def CHUNK_OVERLAP_def)

lemma chunk_step_nonempty:
  assumes "chunk_step text0 chunk_size overlap st = Inr st'" and "\<forall>c\<in>set (chunks st). fst c \<noteq> []"
  shows "\<forall>c\<in>set (chunks st'). fst c \<noteq> []"
  using assms
  by (auto simp: chunk_step_def Let_def split: sum.splits if_splits simp del: find_break.simps)

lemma chunk_loop_nonempty:
  "chunk_loop fuel text0 chunk_size overlap st = Some (Inr r) \<Longrightarrow>
     \<forall>c\<in>set (chunks st). fst c \<noteq> [] \<Longrightarrow> \<forall>c\<in>set r. fst c \<noteq> []"
proof (induction fuel arbitrary: st)
  case 0
  then show ?case by (simp split: if_splits)
next
  case (Suc n)
  show ?case
  proof (cases "start st < int (length text0)")
    case False
    with Suc.prems show ?thesis by simp
  next
    case True
    with Suc.prems(1) obtain st' where s: "chunk_step text0 chunk_size overlap st = Inr st'"
      and l: "chunk_loop n text0 chunk_size overlap st' = Some (Inr r)"
      by (auto simp del: chunk_loop.simps simp add: chunk_loop.simps [of "Suc n"] split: sum.splits)
    from chunk_step_nonempty [OF s Suc.prems(2)] Suc.IH [OF l] show ?thesis
      by blast
  qed
qed

lemma chunk_text_nonempty:
  "normalize text0 \<noteq> [] \<Longrightarrow> chunk_text fuel text0 chunk_size overlap = Some (Inr r) \<Longrightarrow>
     \<forall>c\<in>set r. fst c \<noteq> []"
  using chunk_loop_nonempty [of fuel "normalize text0" chunk_size overlap
      "\<lparr>start = 0, chunks = [], chunk_index = 0\<rparr>" r]
  by (auto simp: chunk_text_def Let_def simp del: chunk_loop.simps split: if_splits)

lemma normalize_abc: "normalize ''abc'' = ''abc''"
  by code_simp

lemma normalize_empty: "normalize [] = []"
  by code_simp

lemma chunk_step_abc:
  "chunk_step ''abc'' 2 2 \<lparr>start = 0, chunks = cs, chunk_index = ci\<rparr>
     = Inr \<lparr>start = 0, chunks = cs @ [(''ab'', ci)], chunk_index = ci + 1\<rparr>"
proof -
  have fb: "find_break ''abc'' 2 1 = Inr None"
    by code_simp
  have sl: "strip (py_slice ''abc'' 0 2) = ''ab''"
    by code_simp
  show ?thesis
    by (simp add: chunk_step_def Let_def fb sl del: find_break.simps)
qed

lemma chunk_loop_abc:
  "chunk_loop fuel ''abc'' 2 2 \<lparr>start = 0, chunks = cs, chunk_index = ci\<rparr> = None"
proof (induction fuel arbitrary: cs ci)
  case 0
  show ?case by simp
next
  case (Suc n)
  show ?case
    by (simp add: chunk_step_abc Suc.IH del: chunk_loop.simps add: chunk_loop.simps [of "Suc n"])
qed

text \<open>
  C1. The claim: for every text and every pair of chunk size and overlap, also an overlap
  that is not below the chunk size, \<open>chunk_text\<close> terminates and the start of the window
  moves forward in every run of the loop. The code has no guard: on the text \<open>abc\<close> with
  chunk size 2 and overlap 2 the first window ends at 2, the next start is \<open>2 - 2 = 0\<close>
  again, and the loop never ends: no number of runs of the body is enough for a result.
\<close>

theorem chunk_text_never_returns: "chunk_text fuel ''abc'' 2 2 = None"
  by (simp add: chunk_text_def normalize_abc chunk_loop_abc del: chunk_loop.simps)

text \<open>
  C2. A text whose normalised form is no longer than the chunk size gives exactly one
  chunk: the normalised text, with index 0.
\<close>

theorem chunk_text_short:
  "int (length (normalize text)) \<le> chunk_size \<Longrightarrow>
     chunk_text fuel text chunk_size overlap = Some (Inr [(normalize text, 0)])"
  by (simp add: chunk_text_def)

theorem chunk_text_short_witness:
  "int (length (normalize ''  Loan   application '')) \<le> 500 \<and>
   chunk_text 0 ''  Loan   application '' 500 50 = Some (Inr [(''Loan application'', 0)])"
proof -
  have n: "normalize ''  Loan   application '' = ''Loan application''"
    by code_simp
  then have h: "int (length (normalize ''  Loan   application '')) \<le> 500"
    by simp
  from chunk_text_short [OF h, of 0 50] n h show ?thesis
    by simp
qed

text \<open>
  C3. The claim: no chunk that \<open>chunk_text\<close> returns has an empty text. The loop drops
  an empty chunk (\<open>if chunk:\<close>), the early return for a short text does not: the empty
  text, with the default sizes, comes back as one chunk with the empty text and index 0.
\<close>

theorem chunk_text_empty_chunk:
  "chunk_text fuel [] CHUNK_SIZE CHUNK_OVERLAP = Some (Inr [([], 0)])"
  by (simp add: chunk_text_def normalize_empty CHUNK_SIZE_def)

section \<open>Answers and the vector store\<close>

lemma fallback_nonempty:
  "cs \<noteq> [] \<Longrightarrow> fallback_response q cs =
     ''**Ollama LLM not available. Here are the relevant document excerpts:**'' @ NL @ NL
     @ concat (map (\<lambda>(i, chunk). excerpt i chunk)
                   (zip [1 ..< Suc (length (take 3 cs))] (take 3 cs)))
     @ NL @ ''*Install and run Ollama to get AI-powered answers: https://ollama.ai*''"
  by (simp add: fallback_response_def)

lemma sublist_concat: "x \<in> set xs \<Longrightarrow> sublist x (concat xs)"
proof -
  assume "x \<in> set xs"
  then obtain as bs where "xs = as @ x # bs"
    by (meson split_list)
  then have "concat xs = concat as @ x @ concat bs"
    by simp
  then show ?thesis
    unfolding sublist_def by blast
qed

lemma sublist_middle: "sublist x m \<Longrightarrow> sublist x (h @ m @ f)"
  unfolding sublist_def by (metis append.assoc)

lemma excerpt_truncated:
  "excerpt i (c\<lparr>ctext := take 500 (ctext c)\<rparr>) = excerpt i c"
  by (simp add: excerpt_def Let_def)

lemma fallback_top3: "cs \<noteq> [] \<Longrightarrow> fallback_response q (take 3 cs) = fallback_response q cs"
proof -
  assume ne: "cs \<noteq> []"
  then have "take 3 cs \<noteq> []" by (cases cs) simp_all
  with ne show ?thesis
    by (simp add: fallback_nonempty)
qed

lemma fallback_truncated:
  "fallback_response q (map (\<lambda>c. c\<lparr>ctext := take 500 (ctext c)\<rparr>) cs) = fallback_response q cs"
proof (cases "cs = []")
  case True
  then show ?thesis by simp
next
  case False
  have "map (\<lambda>(i, chunk). excerpt i chunk)
          (zip [1 ..< Suc (length (take 3 cs))] (map (\<lambda>c. c\<lparr>ctext := take 500 (ctext c)\<rparr>) (take 3 cs)))
      = map (\<lambda>(i, chunk). excerpt i chunk) (zip [1 ..< Suc (length (take 3 cs))] (take 3 cs))"
    by (simp add: zip_map2 excerpt_truncated split_def o_def)
  with False show ?thesis
    by (simp add: fallback_nonempty take_map)
qed

lemma fallback_lists_chunk:
  assumes "i < min 3 (length cs)"
  shows "sublist (excerpt (Suc i) (cs ! i)) (fallback_response q cs)"
proof -
  from assms have ne: "cs \<noteq> []" by auto
  let ?n = "length (take 3 cs)"
  from assms have i: "i < ?n" by simp
  then have "zip [1 ..< Suc ?n] (take 3 cs) ! i = (Suc i, cs ! i)"
    by (simp del: upt_Suc)
  moreover from i have "i < length (zip [1 ..< Suc ?n] (take 3 cs))"
    by (simp del: upt_Suc)
  ultimately have "(Suc i, cs ! i) \<in> set (zip [1 ..< Suc ?n] (take 3 cs))"
    by (metis nth_mem)
  then have "(case (Suc i, cs ! i) of (i, chunk) \<Rightarrow> excerpt i chunk)
       \<in> (\<lambda>(i, chunk). excerpt i chunk) ` set (zip [1 ..< Suc ?n] (take 3 cs))"
    by (rule imageI)
  then have "excerpt (Suc i) (cs ! i)
       \<in> set (map (\<lambda>(i, chunk). excerpt i chunk) (zip [1 ..< Suc ?n] (take 3 cs)))"
    by (simp only: set_map prod.case)
  then have "sublist (excerpt (Suc i) (cs ! i))
       (concat (map (\<lambda>(i, chunk). excerpt i chunk) (zip [1 ..< Suc ?n] (take 3 cs))))"
    by (rule sublist_concat)
  then show ?thesis
    unfolding fallback_nonempty [OF ne]
    by (metis sublist_middle append.assoc)
qed

lemma generate_response_cases:
  "fst (generate_response ol eng q cs mt) =
     (if \<not> fst (check_ollama_available ol eng) then Inr (fallback_response q cs)
      else case chat ol (build_prompt q cs) mt of
             Inl e \<Rightarrow> Inr (fallback_response q cs)
           | Inr content \<Rightarrow> Inr content)"
  by (simp add: generate_response_def try_except_def Let_def split_def split: sum.splits)

text \<open>
  C8. \<open>generate_response\<close> always gives an answer, never an error. When the language
  model is not available, or its call fails, the answer is the fallback: for no context
  the fixed message that no relevant documents were found; otherwise a text that
  depends on the first three chunks only, and on the first 500 characters of each, and
  that holds for each of them its number, its source filename and those characters.
\<close>

theorem generate_response_fallback:
  "(\<exists>r. fst (generate_response ol eng q cs mt) = Inr r)
   \<and> (\<not> fst (check_ollama_available ol eng) \<or> (\<exists>e. chat ol (build_prompt q cs) mt = Inl e)
        \<longrightarrow> fst (generate_response ol eng q cs mt) = Inr (fallback_response q cs))
   \<and> fallback_response q [] = ''No relevant documents found for your query.''
   \<and> (cs \<noteq> [] \<longrightarrow>
         fallback_response q cs = fallback_response q (take 3 cs)
       \<and> fallback_response q cs = fallback_response q (map (\<lambda>c. c\<lparr>ctext := take 500 (ctext c)\<rparr>) cs)
       \<and> (\<forall>i < min 3 (length cs). sublist (excerpt (Suc i) (cs ! i)) (fallback_response q cs)))"
proof (intro conjI impI)
  show "\<exists>r. fst (generate_response ol eng q cs mt) = Inr r"
    by (simp add: generate_response_cases split: sum.splits)
  show "fst (generate_response ol eng q cs mt) = Inr (fallback_response q cs)"
    if "\<not> fst (check_ollama_available ol eng) \<or> (\<exists>e. chat ol (build_prompt q cs) mt = Inl e)"
    using that by (auto simp: generate_response_cases)
  show "fallback_response q [] = ''No relevant documents found for your query.''"
    by (simp add: fallback_response_def)
  show "fallback_response q cs = fallback_response q (take 3 cs)" if "cs \<noteq> []"
    using fallback_top3 [OF that] by simp
  show "fallback_response q cs = fallback_response q (map (\<lambda>c. c\<lparr>ctext := take 500 (ctext c)\<rparr>) cs)"
    by (simp add: fallback_truncated)
  show "\<forall>i < min 3 (length cs). sublist (excerpt (Suc i) (cs ! i)) (fallback_response q cs)"
    using fallback_lists_chunk by blast
qed

theorem generate_response_fallback_witness:
  "\<not> fst (check_ollama_available
             \<lparr>list_models = Inl BackendError, chat = (\<lambda>p n. Inl BackendError)\<rparr>
             \<lparr>ollama_available = None, coll = \<lparr>reachable = True, records = []\<rparr>\<rparr>)
   \<and> fst (generate_response
             \<lparr>list_models = Inl BackendError, chat = (\<lambda>p n. Inl BackendError)\<rparr>
             \<lparr>ollama_available = None, coll = \<lparr>reachable = True, records = []\<rparr>\<rparr>
             ''What is the EMI?''
             [\<lparr>ctext = ''EMI of Rs. 5,000'', metadata = [(''filename'', ''loan.pdf'')],
               distance = 0, rid = ''d1_chunk_0''\<rparr>] 500)
       = Inr (fallback_response ''What is the EMI?''
               [\<lparr>ctext = ''EMI of Rs. 5,000'', metadata = [(''filename'', ''loan.pdf'')],
                 distance = 0, rid = ''d1_chunk_0''\<rparr>])
   \<and> sublist (''**1. From loan.pdf:**'' @ NL @ ''EMI of Rs. 5,000...'' @ NL @ NL)
         (fallback_response ''What is the EMI?''
               [\<lparr>ctext = ''EMI of Rs. 5,000'', metadata = [(''filename'', ''loan.pdf'')],
                 distance = 0, rid = ''d1_chunk_0''\<rparr>])"
  (is "\<not> fst (check_ollama_available ?ol ?eng) \<and> fst (generate_response ?ol ?eng ?q ?cs 500) = _ \<and> _")
proof -
  have na: "\<not> fst (check_ollama_available ?ol ?eng)"
    by (simp add: check_ollama_available_def)
  have ne: "?cs \<noteq> []"
    by simp
  have i: "(0::nat) < min 3 (length ?cs)"
    by simp
  have ex: "excerpt (Suc 0) (?cs ! 0) = ''**1. From loan.pdf:**'' @ NL @ ''EMI of Rs. 5,000...'' @ NL @ NL"
    by code_simp
  note t = generate_response_fallback [of ?ol ?eng ?q ?cs 500]
  from t na have g: "fst (generate_response ?ol ?eng ?q ?cs 500) = Inr (fallback_response ?q ?cs)"
    by blast
  from t ne i have "sublist (excerpt (Suc 0) (?cs ! 0)) (fallback_response ?q ?cs)"
    by blast
  with ex have s: "sublist (''**1. From loan.pdf:**'' @ NL @ ''EMI of Rs. 5,000...'' @ NL @ NL)
         (fallback_response ?q ?cs)"
    by (simp only:)
  from na g s show ?thesis by blast
qed

lemma delete_reachable:
  assumes "reachable (coll eng)"
  shows "delete_document_embeddings eng doc_id =
     (Inr True,
      eng\<lparr>coll := (coll eng)\<lparr>records :=
         filter (\<lambda>r. vid r \<notin> vid ` {r \<in> set (records (coll eng)). belongs doc_id r})
                (records (coll eng))\<rparr>\<rparr>)"
proof (cases "filter (belongs doc_id) (records (coll eng)) = []")
  case True
  then have "\<forall>r\<in>set (records (coll eng)). \<not> belongs doc_id r"
    by (simp add: filter_empty_conv)
  then have "filter (\<lambda>r. vid r \<notin> vid ` {r \<in> set (records (coll eng)). belongs doc_id r})
                (records (coll eng)) = records (coll eng)"
    by (auto intro: filter_True)
  with True assms show ?thesis
    by (simp add: delete_document_embeddings_def coll_get_def belongs_def [abs_def])
next
  case False
  with assms show ?thesis
    by (simp add: delete_document_embeddings_def coll_get_def coll_delete_def belongs_def [abs_def])
qed

lemma delete_never_raises: "\<exists>b. fst (delete_document_embeddings eng doc_id) = Inr b"
  by (auto simp: delete_document_embeddings_def split: sum.splits)

text \<open>
  C9. On a store that can be reached, \<open>delete_document_embeddings\<close> succeeds, and no
  record of the document is left; nothing is added, and when the record ids are distinct
  exactly the records of other documents stay. A document without records leaves the
  store as it is, and so does a second call with the same id: both succeed.
\<close>

theorem delete_document_embeddings_idempotent:
  assumes "reachable (coll eng)"
    and "delete_document_embeddings eng doc_id = (res, eng')"
  shows "res = Inr True
     \<and> (\<forall>r\<in>set (records (coll eng')). \<not> belongs doc_id r)
     \<and> set (records (coll eng')) \<subseteq> set (records (coll eng))
     \<and> (distinct (map vid (records (coll eng))) \<longrightarrow>
          records (coll eng') = filter (\<lambda>r. \<not> belongs doc_id r) (records (coll eng)))
     \<and> ((\<forall>r\<in>set (records (coll eng)). \<not> belongs doc_id r) \<longrightarrow> eng' = eng)
     \<and> delete_document_embeddings eng' doc_id = (Inr True, eng')"
proof -
  let ?gone = "vid ` {r \<in> set (records (coll eng)). belongs doc_id r}"
  from assms delete_reachable [OF assms(1), of doc_id]
  have res: "res = Inr True"
    and eng': "eng' = eng\<lparr>coll := (coll eng)\<lparr>records :=
         filter (\<lambda>r. vid r \<notin> ?gone) (records (coll eng))\<rparr>\<rparr>"
    by simp_all
  have recs: "records (coll eng') = filter (\<lambda>r. vid r \<notin> ?gone) (records (coll eng))"
    by (simp add: eng')
  have none: "\<forall>r\<in>set (records (coll eng')). \<not> belongs doc_id r"
    unfolding recs by auto
  have sub: "set (records (coll eng')) \<subseteq> set (records (coll eng))"
    unfolding recs by auto
  have keep: "records (coll eng') = filter (\<lambda>r. \<not> belongs doc_id r) (records (coll eng))"
    if d: "distinct (map vid (records (coll eng)))"
  proof -
    have "vid r \<notin> ?gone \<longleftrightarrow> \<not> belongs doc_id r" if "r \<in> set (records (coll eng))" for r
    proof
      assume "vid r \<notin> ?gone"
      with that show "\<not> belongs doc_id r" by blast
    next
      assume nb: "\<not> belongs doc_id r"
      show "vid r \<notin> ?gone"
      proof
        assume "vid r \<in> ?gone"
        then obtain r' where r': "r' \<in> set (records (coll eng))" "belongs doc_id r'" "vid r' = vid r"
          by auto
        from d have "inj_on vid (set (records (coll eng)))"
          by (simp add: distinct_map)
        with r' that have "r' = r" by (auto dest: inj_onD)
        with r' nb show False by simp
      qed
    qed
    then show ?thesis
      unfolding recs by (auto intro: filter_cong)
  qed
  have reach: "reachable (coll eng')"
    using assms(1) by (simp add: eng')
  have "filter (\<lambda>r. vid r \<notin> vid ` {r \<in> set (records (coll eng')). belongs doc_id r})
          (records (coll eng')) = records (coll eng')"
    using none by (auto intro: filter_True)
  then have again: "delete_document_embeddings eng' doc_id = (Inr True, eng')"
    using delete_reachable [OF reach, of doc_id] by simp
  have same: "eng' = eng" if "\<forall>r\<in>set (records (coll eng)). \<not> belongs doc_id r"
  proof -
    from that have "filter (\<lambda>r. vid r \<notin> ?gone) (records (coll eng)) = records (coll eng)"
      by (auto intro: filter_True)
    then show ?thesis by (simp add: eng')
  qed
  from res none sub keep same again show ?thesis by blast
qed

theorem delete_document_embeddings_idempotent_witness:
  "reachable (coll \<lparr>ollama_available = None, coll = \<lparr>reachable = True, records =
       [\<lparr>vid = ''d1_chunk_0'', document = ''first'', vmeta = [(''filename'', ''a.pdf''), (''document_id'', ''d1'')]\<rparr>,
        \<lparr>vid = ''d2_chunk_0'', document = ''other'', vmeta = [(''filename'', ''b.pdf''), (''document_id'', ''d2'')]\<rparr>,
        \<lparr>vid = ''d1_chunk_1'', document = ''second'', vmeta = [(''filename'', ''a.pdf''), (''document_id'', ''d1'')]\<rparr>]\<rparr>\<rparr>)
   \<and> delete_document_embeddings \<lparr>ollama_available = None, coll = \<lparr>reachable = True, records =
       [\<lparr>vid = ''d1_chunk_0'', document = ''first'', vmeta = [(''filename'', ''a.pdf''), (''document_id'', ''d1'')]\<rparr>,
        \<lparr>vid = ''d2_chunk_0'', document = ''other'', vmeta = [(''filename'', ''b.pdf''), (''document_id'', ''d2'')]\<rparr>,
        \<lparr>vid = ''d1_chunk_1'', document = ''second'', vmeta = [(''filename'', ''a.pdf''), (''document_id'', ''d1'')]\<rparr>]\<rparr>\<rparr> ''d1''
     = (Inr True, \<lparr>ollama_available = None, coll = \<lparr>reachable = True, records =
       [\<lparr>vid = ''d2_chunk_0'', document = ''other'', vmeta = [(''filename'', ''b.pdf''), (''document_id'', ''d2'')]\<rparr>]\<rparr>\<rparr>)
   \<and> delete_document_embeddings \<lparr>ollama_available = None, coll = \<lparr>reachable = True, records =
       [\<lparr>vid = ''d2_chunk_0'', document = ''other'', vmeta = [(''filename'', ''b.pdf''), (''document_id'', ''d2'')]\<rparr>]\<rparr>\<rparr> ''d1''
     = (Inr True, \<lparr>ollama_available = None, coll = \<lparr>reachable = True, records =
       [\<lparr>vid = ''d2_chunk_0'', document = ''other'', vmeta = [(''filename'', ''b.pdf''), (''document_id'', ''d2'')]\<rparr>]\<rparr>\<rparr>)"
  (is "reachable (coll ?E) \<and> delete_document_embeddings ?E ''d1'' = (Inr True, ?E') \<and> _")
proof -
  have r: "reachable (coll ?E)"
    by simp
  have d: "delete_document_embeddings ?E ''d1'' = (Inr True, ?E')"
    by (simp add: delete_document_embeddings_def coll_get_def coll_delete_def)
  from delete_document_embeddings_idempotent [OF r d] r d show ?thesis
    by blast
qed

end
